theory Spec2Isabelle
  imports Main "HOL-Library.Sublist"
begin

section \<open>The status payload filter of \<open>Fan.get_device_state\<close>\<close>

text \<open>
  The response body \<open>api.text\<close> is a Python \<open>str\<close>. It is modelled as a \<open>string\<close>, a list
  of characters with code points below 256. The character classes below are the classes
  of Python's \<open>re\<close> module for \<open>str\<close> patterns, restricted to these code points.
\<close>

definition newline :: char where
  "newline = CHR 0x0A"

definition dquote :: char where
  "dquote = CHR 0x22"

text \<open>\<open>\s\<close>: the code points 9 to 13, 28 to 32, 133 and 160.\<close>

definition is_space :: "char \<Rightarrow> bool" where
  "is_space c = (let n = (of_char c :: nat) in
     (9 \<le> n \<and> n \<le> 13) \<or> (28 \<le> n \<and> n \<le> 32) \<or> n = 133 \<or> n = 160)"

text \<open>\<open>\w\<close>: the alphanumeric characters and the underscore.\<close>

definition is_word :: "char \<Rightarrow> bool" where
  "is_word c = (let n = (of_char c :: nat) in
     (48 \<le> n \<and> n \<le> 57) \<or> (65 \<le> n \<and> n \<le> 90) \<or> n = 95 \<or> (97 \<le> n \<and> n \<le> 122) \<or>
     n = 170 \<or> n = 178 \<or> n = 179 \<or> n = 181 \<or> n = 185 \<or> n = 186 \<or>
     (188 \<le> n \<and> n \<le> 190) \<or> (192 \<le> n \<and> n \<le> 214) \<or> (216 \<le> n \<and> n \<le> 246) \<or>
     (248 \<le> n \<and> n \<le> 255))"

text \<open>\<open>.\<close> without \<open>re.DOTALL\<close>: every character but the line feed.\<close>

definition is_dot :: "char \<Rightarrow> bool" where
  "is_dot c = (c \<noteq> newline)"

text \<open>
  The fragment of regular expressions that the pattern of \<open>get_device_state\<close> uses:
  a single character of a class, a literal string, the greedy repetitions \<open>*\<close> and \<open>+\<close> of
  a class, the anchors \<open>^\<close> and \<open>$\<close> under \<open>re.M\<close>, the negative lookahead \<open>(?!...)\<close> and
  concatenation.
\<close>

datatype rx =
    Chr "char \<Rightarrow> bool"
  | Str string
  | Star "char \<Rightarrow> bool"
  | Plus "char \<Rightarrow> bool"
  | Bol
  | Eol
  | NegLook rx
  | Seq rx rx

text \<open>
  \<open>ends r t p\<close> lists the positions at which a match of \<open>r\<close> that starts at position \<open>p\<close> of
  \<open>t\<close> can end, in the order in which the backtracking matcher tries them: a greedy
  repetition offers its longest run first, and a concatenation tries every end of its
  left part, in order, with every end of its right part.
\<close>

fun ends :: "rx \<Rightarrow> string \<Rightarrow> nat \<Rightarrow> nat list" where
  "ends (Chr P) t p = (if p < length t \<and> P (t ! p) then [p + 1] else [])"
| "ends (Str s) t p = (if take (length s) (drop p t) = s then [p + length s] else [])"
| "ends (Star P) t p =
     map (\<lambda>k. p + k) (rev [0 ..< length (takeWhile P (drop p t)) + 1])"
| "ends (Plus P) t p =
     map (\<lambda>k. p + k) (rev [1 ..< length (takeWhile P (drop p t)) + 1])"
| "ends Bol t p = (if p = 0 \<or> (p \<le> length t \<and> t ! (p - 1) = newline) then [p] else [])"
| "ends Eol t p = (if p = length t \<or> (p < length t \<and> t ! p = newline) then [p] else [])"
| "ends (NegLook r) t p = (if ends r t p = [] then [p] else [])"
| "ends (Seq a b) t p = concat (map (ends b t) (ends a t p))"

text \<open>The match at a position is the first end the matcher reaches.\<close>

definition re_match :: "rx \<Rightarrow> string \<Rightarrow> nat \<Rightarrow> nat option" where
  "re_match r t p = (case ends r t p of [] \<Rightarrow> None | e # _ \<Rightarrow> Some e)"

text \<open>
  \<open>re.findall\<close>: scan the text from left to right, collect the text of each match and go
  on from its end; where nothing matches, move one character on. A match of the pattern
  below is never empty (lemma \<open>pattern_match_shape\<close> below), so the scan always goes on from the
  end of the match.
\<close>

function findall_from :: "rx \<Rightarrow> string \<Rightarrow> nat \<Rightarrow> string list" where
  "findall_from r t p =
     (if length t < p then []
      else case re_match r t p of
             None \<Rightarrow> findall_from r t (p + 1)
           | Some e \<Rightarrow> take (e - p) (drop p t) # findall_from r t (max e (p + 1)))"
  by pat_completeness auto
termination
  by (relation "measure (\<lambda>(r, t, p). length t + 1 - p)") auto

declare findall_from.simps [simp del]

definition findall :: "rx \<Rightarrow> string \<Rightarrow> string list" where
  "findall r t = findall_from r t 0"

text \<open>The literal \<open>server_response"\<close> of the lookahead.\<close>

definition server_response_key :: string where
  "server_response_key = ''server_response'' @ [dquote]"

text \<open>\<open>\s+.*server_response\".*$\<close>\<close>

definition lookahead_rx :: rx where
  "lookahead_rx =
     Seq (Plus is_space) (Seq (Star is_dot) (Seq (Str server_response_key)
       (Seq (Star is_dot) Eol)))"

text \<open>\<open>(?!\s+.*server_response\".*$)^\s+\"\w+.*\<close>\<close>

definition pattern :: rx where
  "pattern =
     Seq (NegLook lookahead_rx) (Seq Bol (Seq (Plus is_space) (Seq (Chr (\<lambda>c. c = dquote))
       (Seq (Plus is_word) (Star is_dot)))))"

definition clean_list :: "string \<Rightarrow> string list" where
  "clean_list text = findall pattern text"

text \<open>\<open>sep.join(xs)\<close>\<close>

fun join :: "string \<Rightarrow> string list \<Rightarrow> string" where
  "join sep [] = []"
| "join sep [x] = x"
| "join sep (x # y # ys) = x @ sep @ join sep (y # ys)"

text \<open>\<open>"{ " + "\n".join(clean_list) + " }"\<close>\<close>

definition clean_text :: "string \<Rightarrow> string" where
  "clean_text text = ''{ '' @ join [newline] (clean_list text) @ '' }''"

section \<open>The cached state, the device and the record of what is sent\<close>

text \<open>
  The cached snapshot \<open>self._data\<close> is the dict that \<open>json.loads\<close> returns. The three
  members the library reads are modelled with the types it reads them at: \<open>fanspd\<close> and
  \<open>doorinprocess\<close> as Python integers, \<open>model\<close> as a string. The other members of the
  payload are kept as pairs of a key and the text of its value.
\<close>

record device_state =
  fanspd :: int
  doorinprocess :: int
  model :: string
  others :: "(string \<times> string) list"

text \<open>\<open>bool(n)\<close> of an integer.\<close>

definition py_bool :: "int \<Rightarrow> bool" where
  "py_bool n = (n \<noteq> 0)"

text \<open>
  What \<open>requests.get\<close> can raise and the library catches. Any other exception of
  \<open>requests\<close> would pass through the methods unchanged and is not modelled.
\<close>

datatype http_failure = RequestsConnectionError | RequestsReadTimeout

text \<open>
  The exceptions a method of \<open>Fan\<close> ends with: \<open>ex.ConnectionError\<close>, \<open>ex.Timeout\<close>, and the
  error \<open>json.loads\<close> raises, which is not caught.
\<close>

datatype error = ConnectionError | Timeout | JSONDecodeError

text \<open>
  Everything outside the class is a parameter: the two endpoints of the device and the
  passing of time act on a state \<open>'w\<close> of the outside world, and \<open>json.loads\<close> is a
  function from the text to a snapshot, \<open>None\<close> when it raises. Durations are in
  milliseconds.
\<close>

record 'w platform =
  requests_get_status :: "'w \<Rightarrow> (http_failure + string) \<times> 'w"
  requests_get_command :: "int \<Rightarrow> 'w \<Rightarrow> (http_failure + unit) \<times> 'w"
  sleep :: "nat \<Rightarrow> 'w \<Rightarrow> 'w"
  json_loads :: "string \<Rightarrow> device_state option"

text \<open>The calls a method makes, in order.\<close>

datatype event = GetStatus | GetCommand int | Sleep nat

text \<open>
  The state a method runs in: the cached snapshot \<open>self._data\<close>, the outside world, and
  the calls made so far.
\<close>

record 'w fan =
  data :: device_state
  world :: 'w
  trace :: "event list"

text \<open>The command codes sent, in order.\<close>

fun commands :: "event list \<Rightarrow> int list" where
  "commands [] = []"
| "commands (GetCommand c # es) = c # commands es"
| "commands (GetStatus # es) = commands es"
| "commands (Sleep n # es) = commands es"

section \<open>The methods of \<open>Fan\<close>\<close>

text \<open>
  A method returns its exception (\<open>Inl\<close>) or its value (\<open>Inr\<close>), and the state it leaves.
  \<open>get_device_state\<close> assigns \<open>self._data\<close> only after \<open>json.loads\<close> has returned.
\<close>

definition get_device_state ::
  "'w platform \<Rightarrow> 'w fan \<Rightarrow> (error + device_state) \<times> 'w fan" where
  "get_device_state P s =
     (case requests_get_status P (world s) of (r, w') \<Rightarrow>
        (let s1 = s\<lparr>world := w', trace := trace s @ [GetStatus]\<rparr> in
         (case r of
            Inl RequestsConnectionError \<Rightarrow> (Inl ConnectionError, s1)
          | Inl RequestsReadTimeout \<Rightarrow> (Inl Timeout, s1)
          | Inr text \<Rightarrow>
              (case json_loads P (clean_text text) of
                 None \<Rightarrow> (Inl JSONDecodeError, s1)
               | Some d \<Rightarrow> (Inr d, s1\<lparr>data := d\<rparr>)))))"

definition set_device_state ::
  "'w platform \<Rightarrow> int \<Rightarrow> 'w fan \<Rightarrow> (error + unit) \<times> 'w fan" where
  "set_device_state P cmd s =
     (case requests_get_command P cmd (world s) of (r, w') \<Rightarrow>
        (let s1 = s\<lparr>world := w', trace := trace s @ [GetCommand cmd]\<rparr> in
         (case r of
            Inl RequestsConnectionError \<Rightarrow> (Inl ConnectionError, s1)
          | Inl RequestsReadTimeout \<Rightarrow> (Inl Timeout, s1)
          | Inr _ \<Rightarrow>
              (case get_device_state P s1 of
                 (Inl e, s2) \<Rightarrow> (Inl e, s2)
               | (Inr _, s2) \<Rightarrow> (Inr (), s2)))))"

text \<open>\<open>sleep(seconds)\<close>\<close>

definition do_sleep :: "'w platform \<Rightarrow> nat \<Rightarrow> 'w fan \<Rightarrow> 'w fan" where
  "do_sleep P ms s = s\<lparr>world := sleep P ms (world s), trace := trace s @ [Sleep ms]\<rparr>"

text \<open>The getter of \<open>is_on\<close>.\<close>

definition is_on :: "'w fan \<Rightarrow> bool" where
  "is_on s = py_bool (fanspd (data s))"

text \<open>
  The loop of the setter of \<open>is_on\<close> that waits for the damper doors. It has no bound:
  where it does not end the value is \<open>None\<close>.
\<close>

partial_function (option) door_loop ::
  "'w platform \<Rightarrow> 'w fan \<Rightarrow> ((error + unit) \<times> 'w fan) option" where
  "door_loop P s =
     (if py_bool (doorinprocess (data s)) then
        (case get_device_state P (do_sleep P 250 s) of
           (Inl e, s2) \<Rightarrow> Some (Inl e, s2)
         | (Inr _, s2) \<Rightarrow> door_loop P s2)
      else Some (Inr (), s))"

text \<open>The setter of \<open>is_on\<close>.\<close>

definition set_is_on ::
  "'w platform \<Rightarrow> bool \<Rightarrow> 'w fan \<Rightarrow> ((error + unit) \<times> 'w fan) option" where
  "set_is_on P state s =
     (if state \<and> \<not> py_bool (fanspd (data s)) then
        (case set_device_state P 1 s of
           (Inl e, s1) \<Rightarrow> Some (Inl e, s1)
         | (Inr _, s1) \<Rightarrow> door_loop P s1)
      else if \<not> state then Some (set_device_state P 4 s)
      else Some (Inr (), s))"

text \<open>The getter of \<open>speed\<close>.\<close>

definition speed :: "'w fan \<Rightarrow> int" where
  "speed s = fanspd (data s)"

text \<open>The stepping loop of the setter of \<open>speed\<close>, unbounded as well.\<close>

partial_function (option) speed_loop ::
  "'w platform \<Rightarrow> int \<Rightarrow> int \<Rightarrow> 'w fan \<Rightarrow> ((error + unit) \<times> 'w fan) option" where
  "speed_loop P target command s =
     (if fanspd (data s) \<noteq> target \<and> fanspd (data s) \<noteq> 0 then
        (case set_device_state P command s of
           (Inl e, s1) \<Rightarrow> Some (Inl e, s1)
         | (Inr _, s1) \<Rightarrow> speed_loop P target command (do_sleep P 750 s1))
      else Some (Inr (), s))"

text \<open>The setter of \<open>speed\<close>.\<close>

definition set_speed ::
  "'w platform \<Rightarrow> int \<Rightarrow> 'w fan \<Rightarrow> ((error + unit) \<times> 'w fan) option" where
  "set_speed P target s =
     (if target = 0 then set_is_on P False s
      else
        (case (if \<not> is_on s then set_is_on P True s else Some (Inr (), s)) of
           None \<Rightarrow> None
         | Some (Inl e, s1) \<Rightarrow> Some (Inl e, s1)
         | Some (Inr _, s1) \<Rightarrow>
             speed_loop P target (if target < fanspd (data s1) then 3 else 1) s1))"

text \<open>
  \<open>MAX_FAN_SPEED\<close> is a dict of \<open>const.py\<close>, from the model name to the highest speed. It is
  a parameter of the two methods that read it.
\<close>

definition max_speed :: "(string \<rightharpoonup> int) \<Rightarrow> 'w fan \<Rightarrow> int \<times> 'w fan" where
  "max_speed MAX_FAN_SPEED s =
     (case MAX_FAN_SPEED (model (data s)) of None \<Rightarrow> 10 | Some v \<Rightarrow> v, s)"

definition speed_up ::
  "(string \<rightharpoonup> int) \<Rightarrow> 'w platform \<Rightarrow> 'w fan \<Rightarrow> (error + unit) \<times> 'w fan" where
  "speed_up MAX_FAN_SPEED P s =
     (if 1 \<le> fanspd (data s) \<and>
         fanspd (data s) < (case MAX_FAN_SPEED (model (data s)) of None \<Rightarrow> 10 | Some v \<Rightarrow> v)
      then set_device_state P 1 s
      else (Inr (), s))"

definition slow_down :: "'w platform \<Rightarrow> 'w fan \<Rightarrow> (error + unit) \<times> 'w fan" where
  "slow_down P s =
     (if 1 < fanspd (data s) then set_device_state P 3 s else (Inr (), s))"

definition add_time :: "'w platform \<Rightarrow> 'w fan \<Rightarrow> (error + unit) \<times> 'w fan" where
  "add_time P s = set_device_state P 2 s"

section \<open>Devices and states to run the methods on\<close>

text \<open>A device that cannot be reached.\<close>

definition dead_device :: "unit platform" where
  "dead_device = \<lparr>requests_get_status = (\<lambda>w. (Inl RequestsConnectionError, w)),
     requests_get_command = (\<lambda>c w. (Inl RequestsConnectionError, w)),
     sleep = (\<lambda>ms w. w),
     json_loads = (\<lambda>t. None)\<rparr>"

text \<open>
  A device whose state is its speed, from 0 to 5. Its payload has the speed as one
  digit, the diagnostic member in the middle and a door flag; command 1 steps the speed
  up, command 3 steps it down.
\<close>

definition digit_body :: "int \<Rightarrow> string" where
  "digit_body n =
     ''{'' @ [newline] @
     ''  '' @ [dquote] @ ''fanspd'' @ [dquote] @ '': '' @ [char_of (48 + n)] @ '','' @ [newline] @
     ''  '' @ [dquote] @ ''server_response'' @ [dquote] @ '': '' @ [dquote] @ ''OK''
       @ [CHR 0x00, dquote] @ '','' @ [newline] @
     ''  '' @ [dquote] @ ''doorinprocess'' @ [dquote] @ '': 0'' @ [newline] @
     ''}''"

text \<open>
  A stand-in for \<open>json.loads\<close> that is enough for these payloads: the snapshot has the
  digit at column 14 as its speed, and the text is refused when there is no digit there.
\<close>

definition digit_loads :: "string \<Rightarrow> device_state option" where
  "digit_loads t =
     (if 14 < length t \<and> 48 \<le> (of_char (t ! 14) :: int) \<and> (of_char (t ! 14) :: int) \<le> 57
      then Some \<lparr>fanspd = of_char (t ! 14) - 48, doorinprocess = 0, model = ''toy'', others = []\<rparr>
      else None)"

definition digit_speed :: "int \<Rightarrow> int" where
  "digit_speed w = (if 0 \<le> w \<and> w \<le> 5 then w else 0)"

definition digit_device :: "int platform" where
  "digit_device = \<lparr>requests_get_status = (\<lambda>w. (Inr (digit_body (digit_speed w)), w)),
     requests_get_command =
       (\<lambda>c w. (Inr (), if c = 3 then w - 1 else if c = 1 then w + 1 else w)),
     sleep = (\<lambda>ms w. w),
     json_loads = digit_loads\<rparr>"

text \<open>The same device with a payload that is cut off after the colon of its first member.\<close>

definition cut_body :: string where
  "cut_body = ''{'' @ [newline] @ ''  '' @ [dquote] @ ''fanspd'' @ [dquote] @ '': ''"

definition cut_device :: "int platform" where
  "cut_device = digit_device\<lparr>requests_get_status := (\<lambda>w. (Inr cut_body, w))\<rparr>"

definition cached :: "int \<Rightarrow> string \<Rightarrow> device_state" where
  "cached n m = \<lparr>fanspd = n, doorinprocess = 0, model = m, others = []\<rparr>"

definition toy_table :: "string \<rightharpoonup> int" where
  "toy_table = [''small'' \<mapsto> 7]"

text \<open>Two bodies for the filter: one with an indented member after a member at column
  zero, one with a member at column zero after an empty line.\<close>

definition indented_payload :: string where
  "indented_payload =
     ''{'' @ [newline, dquote] @ ''a'' @ [dquote] @ '': 1,'' @ [newline] @
     ''  '' @ [dquote] @ ''b'' @ [dquote] @ '': 2'' @ [newline] @ ''}''"

definition blank_line_payload :: string where
  "blank_line_payload =
     ''{'' @ [newline, newline, dquote] @ ''fanspd'' @ [dquote] @ '': 5'' @ [newline] @ ''}''"

section \<open>A device that follows the step commands\<close>

text \<open>
  The device lowers the speed it reports by one after each slow-down command it
  receives, as long as its speed \<open>spd\<close> is above \<open>target\<close>: the command is answered, the
  status asked for next parses to a snapshot with the speed one lower, and the device
  is still at that speed after the pause of 750 ms.
\<close>

definition step_lowers_speed :: "'w platform \<Rightarrow> ('w \<Rightarrow> int) \<Rightarrow> int \<Rightarrow> bool" where
  "step_lowers_speed P spd target =
     (\<forall>w. target < spd w \<longrightarrow>
        (\<exists>w1 text w2 d.
           requests_get_command P 3 w = (Inr (), w1) \<and>
           requests_get_status P w1 = (Inr text, w2) \<and>
           json_loads P (clean_text text) = Some d \<and>
           fanspd d = spd w - 1 \<and>
           spd (sleep P 750 w2) = spd w - 1))"

section \<open>What the filter keeps\<close>

lemma ends_Seq_iff:
  "e \<in> set (ends (Seq a b) t p) \<longleftrightarrow> (\<exists>m \<in> set (ends a t p). e \<in> set (ends b t m))"
  by auto

lemma ends_Star_iff:
  "e \<in> set (ends (Star P) t p) \<longleftrightarrow>
     (p \<le> e \<and> e \<le> p + length (takeWhile P (drop p t)))"
  by (auto simp del: upt_Suc simp add: image_iff less_Suc_eq_le intro: le_Suc_ex)

lemma ends_Plus_iff:
  "e \<in> set (ends (Plus P) t p) \<longleftrightarrow>
     (p < e \<and> e \<le> p + length (takeWhile P (drop p t)))"
proof
  assume "e \<in> set (ends (Plus P) t p)"
  then show "p < e \<and> e \<le> p + length (takeWhile P (drop p t))"
    by (auto simp del: upt_Suc)
next
  assume a: "p < e \<and> e \<le> p + length (takeWhile P (drop p t))"
  then have "e = p + (e - p)" and "e - p \<in> {1 ..< length (takeWhile P (drop p t)) + 1}"
    by auto
  then have "e \<in> (\<lambda>k. p + k) ` {1 ..< length (takeWhile P (drop p t)) + 1}"
    by (rule image_eqI)
  then show "e \<in> set (ends (Plus P) t p)"
    by (simp del: upt_Suc)
qed

lemma run_within:
  assumes "k \<le> length (takeWhile P (drop p t))"
  shows "p + k \<le> length t \<or> k = 0" and "\<forall>i. p \<le> i \<and> i < p + k \<longrightarrow> P (t ! i)"
proof -
  let ?u = "drop p t"
  have len: "length (takeWhile P ?u) \<le> length ?u" by (rule length_takeWhile_le)
  with assms show "p + k \<le> length t \<or> k = 0" by auto
  show "\<forall>i. p \<le> i \<and> i < p + k \<longrightarrow> P (t ! i)"
  proof (intro allI impI)
    fix i assume i: "p \<le> i \<and> i < p + k"
    then have j: "i - p < length (takeWhile P ?u)" using assms by auto
    then have "takeWhile P ?u ! (i - p) \<in> set (takeWhile P ?u)" by (rule nth_mem)
    then have "P (takeWhile P ?u ! (i - p))" by (rule set_takeWhileD [THEN conjunct2])
    moreover have "takeWhile P ?u ! (i - p) = ?u ! (i - p)" using j by (rule takeWhile_nth)
    moreover have "?u ! (i - p) = t ! i" using i j len by simp
    ultimately show "P (t ! i)" by simp
  qed
qed

lemma run_covers:
  assumes "p + k \<le> length t" and "\<forall>i. p \<le> i \<and> i < p + k \<longrightarrow> P (t ! i)"
  shows "k \<le> length (takeWhile P (drop p t))"
proof (rule length_takeWhile_less_P_nth)
  show "k \<le> length (drop p t)" using assms(1) by simp
  show "\<And>i. i < k \<Longrightarrow> P (drop p t ! i)" using assms by simp
qed

lemma run_stops:
  assumes "p \<le> length t"
  shows "p + length (takeWhile P (drop p t)) = length t \<or>
         (p + length (takeWhile P (drop p t)) < length t \<and>
          \<not> P (t ! (p + length (takeWhile P (drop p t)))))"
proof (cases "length (takeWhile P (drop p t)) < length (drop p t)")
  case True
  from nth_length_takeWhile [OF this] True assms show ?thesis by auto
next
  case False
  moreover have "length (takeWhile P (drop p t)) \<le> length (drop p t)" by (rule length_takeWhile_le)
  ultimately show ?thesis using assms by simp
qed

lemma ends_NegLook_iff:
  "e \<in> set (ends (NegLook r) t p) \<longleftrightarrow> ends r t p = [] \<and> e = p"
  by auto

lemma ends_Bol_iff:
  "e \<in> set (ends Bol t p) \<longleftrightarrow> (p = 0 \<or> (p \<le> length t \<and> t ! (p - 1) = newline)) \<and> e = p"
  by auto

lemma ends_Eol_iff:
  "e \<in> set (ends Eol t p) \<longleftrightarrow> (p = length t \<or> (p < length t \<and> t ! p = newline)) \<and> e = p"
  by auto

lemma ends_Chr_iff:
  "e \<in> set (ends (Chr P) t p) \<longleftrightarrow> p < length t \<and> P (t ! p) \<and> e = p + 1"
  by auto

lemma ends_Str_iff:
  "e \<in> set (ends (Str s) t p) \<longleftrightarrow> take (length s) (drop p t) = s \<and> e = p + length s"
  by auto

lemma word_not_newline: "is_word c \<Longrightarrow> c \<noteq> newline"
  by (auto simp: is_word_def newline_def)

lemma dquote_not_space: "\<not> is_space dquote"
  by (simp add: is_space_def dquote_def)

lemma dquote_not_newline: "dquote \<noteq> newline"
  by (simp add: dquote_def newline_def)

lemma pattern_match_shape:
  assumes "e \<in> set (ends pattern t p)"
  obtains a where
    "ends lookahead_rx t p = []" and
    "p = 0 \<or> (p \<le> length t \<and> t ! (p - 1) = newline)" and
    "p < a" and "a + 1 < e" and "e \<le> length t" and
    "a \<le> p + length (takeWhile is_space (drop p t))" and
    "\<forall>i. p \<le> i \<and> i < a \<longrightarrow> is_space (t ! i)" and
    "t ! a = dquote" and "is_word (t ! (a + 1))" and
    "\<forall>i. a \<le> i \<and> i < e \<longrightarrow> t ! i \<noteq> newline"
proof -
  from assms have "\<exists>a c. ends lookahead_rx t p = [] \<and>
      (p = 0 \<or> (p \<le> length t \<and> t ! (p - 1) = newline)) \<and>
      (p < a \<and> a \<le> p + length (takeWhile is_space (drop p t))) \<and>
      (a < length t \<and> t ! a = dquote) \<and>
      (a + 1 < c \<and> c \<le> a + 1 + length (takeWhile is_word (drop (a + 1) t))) \<and>
      (c \<le> e \<and> e \<le> c + length (takeWhile is_dot (drop c t)))"
    unfolding pattern_def ends_Seq_iff Bex_def ends_NegLook_iff ends_Bol_iff ends_Plus_iff
      ends_Chr_iff ends_Star_iff
    by (elim exE conjE) (intro exI conjI; simp)
  then obtain a c where all: "ends lookahead_rx t p = [] \<and>
      (p = 0 \<or> (p \<le> length t \<and> t ! (p - 1) = newline)) \<and>
      (p < a \<and> a \<le> p + length (takeWhile is_space (drop p t))) \<and>
      (a < length t \<and> t ! a = dquote) \<and>
      (a + 1 < c \<and> c \<le> a + 1 + length (takeWhile is_word (drop (a + 1) t))) \<and>
      (c \<le> e \<and> e \<le> c + length (takeWhile is_dot (drop c t)))"
    by (elim exE)
  from all have look: "ends lookahead_rx t p = []" by simp
  from all have bol: "p = 0 \<or> (p \<le> length t \<and> t ! (p - 1) = newline)" by (elim conjE)
  from all have sp: "p < a" "a \<le> p + length (takeWhile is_space (drop p t))"
    by simp_all
  from all have dq: "a < length t" "t ! a = dquote" by simp_all
  from all have wd: "a + 1 < c" "c \<le> a + 1 + length (takeWhile is_word (drop (a + 1) t))"
    by simp_all
  from all have dt: "c \<le> e" "e \<le> c + length (takeWhile is_dot (drop c t))"
    by simp_all
  have "a - p \<le> length (takeWhile is_space (drop p t))" using sp by linarith
  from run_within(2) [OF this] have spaces: "\<forall>i. p \<le> i \<and> i < a \<longrightarrow> is_space (t ! i)"
    using sp by simp
  have wlen: "c - (a + 1) \<le> length (takeWhile is_word (drop (a + 1) t))" using wd by linarith
  from run_within(2) [OF wlen] have words: "\<forall>i. a + 1 \<le> i \<and> i < c \<longrightarrow> is_word (t ! i)"
    using wd by simp
  from run_within(1) [OF wlen] have c_le: "c \<le> length t" using wd by simp
  have dlen: "e - c \<le> length (takeWhile is_dot (drop c t))" using dt by linarith
  from run_within(2) [OF dlen] have dots: "\<forall>i. c \<le> i \<and> i < e \<longrightarrow> is_dot (t ! i)"
    using dt by simp
  from run_within(1) [OF dlen] have e_le: "e \<le> length t" using dt c_le by auto
  have w1: "is_word (t ! (a + 1))" using words wd by simp
  have nonl: "\<forall>i. a \<le> i \<and> i < e \<longrightarrow> t ! i \<noteq> newline"
  proof (intro allI impI)
    fix i assume i: "a \<le> i \<and> i < e"
    consider "i = a" | "a + 1 \<le> i \<and> i < c" | "c \<le> i \<and> i < e" using i by linarith
    then show "t ! i \<noteq> newline"
    proof cases
      case 1 then show ?thesis using dq dquote_not_newline by simp
    next
      case 2 then show ?thesis using words word_not_newline by blast
    next
      case 3 then show ?thesis using dots by (simp add: is_dot_def)
    qed
  qed
  have ae: "a + 1 < e" using wd dt by linarith
  show ?thesis
    by (rule that [OF look bol sp(1) ae e_le sp(2) spaces dq(2) w1 nonl])
qed

lemma lookahead_found:
  assumes sp: "p < a" "a \<le> p + length (takeWhile is_space (drop p t))"
    and ab: "a \<le> b" "\<forall>i. a \<le> i \<and> i < b \<longrightarrow> t ! i \<noteq> newline"
    and key: "take (length server_response_key) (drop b t) = server_response_key"
  shows "ends lookahead_rx t p \<noteq> []"
proof -
  let ?q = "b + length server_response_key"
  let ?r = "?q + length (takeWhile is_dot (drop ?q t))"
  have "length (take (length server_response_key) (drop b t)) = length server_response_key"
    using key by simp
  then have q_le: "?q \<le> length t" by (simp add: server_response_key_def)
  have 1: "a \<in> set (ends (Plus is_space) t p)"
    using sp unfolding ends_Plus_iff by simp
  have "b - a \<le> length (takeWhile is_dot (drop a t))"
    using ab q_le by (intro run_covers) (auto simp: is_dot_def)
  then have 2: "b \<in> set (ends (Star is_dot) t a)"
    using ab unfolding ends_Star_iff by linarith
  have 3: "?q \<in> set (ends (Str server_response_key) t b)"
    using key unfolding ends_Str_iff by simp
  have 4: "?r \<in> set (ends (Star is_dot) t ?q)"
    unfolding ends_Star_iff by simp
  have 5: "?r \<in> set (ends Eol t ?r)"
    using run_stops [OF q_le, of is_dot] unfolding ends_Eol_iff is_dot_def by auto
  have "?r \<in> set (ends lookahead_rx t p)"
    unfolding lookahead_rx_def ends_Seq_iff Bex_def using 1 2 3 4 5 by blast
  then show ?thesis by auto
qed

lemma sublist_in_segment:
  assumes "sublist k (take (e - p) (drop p t))" and "p \<le> e" and "e \<le> length t"
  shows "\<exists>b. p \<le> b \<and> b + length k \<le> e \<and> take (length k) (drop b t) = k"
proof -
  from assms(1) obtain ps ss where eq: "take (e - p) (drop p t) = ps @ k @ ss"
    by (auto simp: sublist_def)
  then have "length (take (e - p) (drop p t)) = length ps + length k + length ss" by simp
  then have len: "length ps + length k + length ss = e - p" using assms(2,3) by simp
  define rest where "rest = drop (e - p) (drop p t)"
  have "drop p t = take (e - p) (drop p t) @ rest"
    unfolding rest_def by (rule append_take_drop_id [symmetric])
  then have d: "drop p t = ps @ k @ ss @ rest" by (simp only: eq append_assoc)
  have "drop (p + length ps) t = drop (length ps) (drop p t)"
    by (simp only: drop_drop add.commute)
  also have "\<dots> = k @ ss @ rest" by (simp only: d) simp
  finally have "take (length k) (drop (p + length ps) t) = k" by simp
  moreover have "p + length ps + length k \<le> e" using len assms(2) by linarith
  ultimately show ?thesis by (intro exI [of _ "p + length ps"]) simp
qed

lemma key_starts_unspaced:
  assumes "take (length server_response_key) (drop b t) = server_response_key"
  shows "b < length t \<and> \<not> is_space (t ! b)"
proof -
  have "drop b t \<noteq> []" using assms by (auto simp: server_response_key_def)
  then have b: "b < length t" by simp
  then have "t ! b = hd (drop b t)" by (simp add: hd_drop_conv_nth)
  also have "\<dots> = hd (take (length server_response_key) (drop b t))"
    by (simp add: server_response_key_def)
  also have "\<dots> = CHR ''s''" by (simp only: assms) (simp add: server_response_key_def)
  finally show ?thesis using b by (simp add: is_space_def)
qed

lemma match_has_no_key:
  assumes "e \<in> set (ends pattern t p)"
  shows "\<not> sublist server_response_key (take (e - p) (drop p t))"
proof
  assume sub: "sublist server_response_key (take (e - p) (drop p t))"
  from assms obtain a where
    look: "ends lookahead_rx t p = []" and
    a1: "p < a" and a2: "a + 1 < e" and a3: "e \<le> length t" and
    a4: "a \<le> p + length (takeWhile is_space (drop p t))" and
    a5: "\<forall>i. p \<le> i \<and> i < a \<longrightarrow> is_space (t ! i)" and
    a6: "\<forall>i. a \<le> i \<and> i < e \<longrightarrow> t ! i \<noteq> newline"
    by (rule pattern_match_shape)
  have pe: "p \<le> e" using a1 a2 by linarith
  from sublist_in_segment [OF sub pe a3] obtain b where
    b1: "p \<le> b" and b2: "b + length server_response_key \<le> e" and
    b3: "take (length server_response_key) (drop b t) = server_response_key"
    by blast
  have ab: "a \<le> b"
  proof (rule ccontr)
    assume "\<not> a \<le> b"
    then have "p \<le> b \<and> b < a" using b1 by simp
    with a5 have "is_space (t ! b)" by blast
    with key_starts_unspaced [OF b3] show False by simp
  qed
  have be: "b \<le> e" using b2 by linarith
  have nonl: "\<forall>i. a \<le> i \<and> i < b \<longrightarrow> t ! i \<noteq> newline"
  proof (intro allI impI)
    fix i assume "a \<le> i \<and> i < b"
    then have "a \<le> i \<and> i < e" using be by linarith
    with a6 show "t ! i \<noteq> newline" by blast
  qed
  from lookahead_found [OF a1 a4 ab nonl b3] look show False by simp
qed

lemma re_match_in_ends: "re_match r t p = Some e \<Longrightarrow> e \<in> set (ends r t p)"
  by (auto simp: re_match_def split: list.splits)

lemma findall_from_elem:
  "m \<in> set (findall_from r t p) \<Longrightarrow>
     \<exists>q e. p \<le> q \<and> q \<le> length t \<and> re_match r t q = Some e \<and> m = take (e - q) (drop q t)"
proof (induction r t p rule: findall_from.induct)
  case (1 r t p)
  from "1.prems" have unf:
    "m \<in> set (if length t < p then []
       else case re_match r t p of
              None \<Rightarrow> findall_from r t (p + 1)
            | Some e \<Rightarrow> take (e - p) (drop p t) # findall_from r t (max e (p + 1)))"
    by (subst (asm) findall_from.simps)
  show ?case
  proof (cases "length t < p")
    case True
    with unf show ?thesis by simp
  next
    case False
    show ?thesis
    proof (cases "re_match r t p")
      case None
      with False unf have "m \<in> set (findall_from r t (p + 1))" by simp
      from "1.IH"(1) [OF False None this] obtain q e where
        "p + 1 \<le> q" "q \<le> length t" "re_match r t q = Some e" "m = take (e - q) (drop q t)"
        by blast
      then show ?thesis by (intro exI [of _ q] exI [of _ e]) simp
    next
      case (Some e)
      with False unf have
        "m = take (e - p) (drop p t) \<or> m \<in> set (findall_from r t (max e (p + 1)))" by simp
      then show ?thesis
      proof
        assume "m = take (e - p) (drop p t)"
        with False Some show ?thesis by (intro exI [of _ p] exI [of _ e]) simp
      next
        assume "m \<in> set (findall_from r t (max e (p + 1)))"
        from "1.IH"(2) [OF False Some this] obtain q e' where
          "max e (p + 1) \<le> q" "q \<le> length t" "re_match r t q = Some e'"
          "m = take (e' - q) (drop q t)"
          by blast
        then show ?thesis by (intro exI [of _ q] exI [of _ e']) simp
      qed
    qed
  qed
qed

lemma sublist_around:
  "x \<notin> set k \<Longrightarrow> sublist k (a @ x # b) \<Longrightarrow> sublist k a \<or> sublist k b"
proof (induction a)
  case Nil
  then show ?case
    by (cases k) (auto simp: sublist_Cons_right)
next
  case (Cons y a)
  from Cons.prems(2) have "prefix k (y # a @ x # b) \<or> sublist k (a @ x # b)"
    by (simp add: sublist_Cons_right)
  then show ?case
  proof
    assume "prefix k (y # a @ x # b)"
    then have "prefix k ((y # a) @ (x # b))" by simp
    then have "prefix k (y # a) \<or> (\<exists>us. k = (y # a) @ us \<and> prefix us (x # b))"
      by (simp only: prefix_append)
    then show ?thesis
    proof
      assume "prefix k (y # a)"
      then show ?thesis by (auto intro: prefix_imp_sublist)
    next
      assume "\<exists>us. k = (y # a) @ us \<and> prefix us (x # b)"
      then obtain us where us: "k = (y # a) @ us" "prefix us (x # b)" by blast
      show ?thesis
      proof (cases us)
        case Nil
        with us show ?thesis by simp
      next
        case (Cons u us')
        with us(2) have "u = x" by simp
        with us(1) Cons Cons.prems(1) show ?thesis by simp
      qed
    qed
  next
    assume "sublist k (a @ x # b)"
    from Cons.IH [OF Cons.prems(1) this] show ?thesis by (auto simp: sublist_Cons_right)
  qed
qed

lemma sublist_join:
  "x \<notin> set k \<Longrightarrow> k \<noteq> [] \<Longrightarrow> sublist k (join [x] ms) \<Longrightarrow> \<exists>m \<in> set ms. sublist k m"
proof (induction "[x]" ms rule: join.induct)
  case 1
  then show ?case by simp
next
  case (2 m)
  then show ?case by simp
next
  case (3 m y ys)
  from "3.prems"(3) have "sublist k (m @ x # join [x] (y # ys))" by simp
  from sublist_around [OF "3.prems"(1) this] "3.hyps" "3.prems"(1,2) show ?case by auto
qed

lemma key_chars:
  "newline \<notin> set server_response_key" "CHR '' '' \<notin> set server_response_key"
  "server_response_key \<noteq> []"
  by (simp_all add: server_response_key_def newline_def dquote_def)

lemma key_not_in_brace: "length m \<le> 1 \<Longrightarrow> \<not> sublist server_response_key m"
proof
  assume "length m \<le> 1" and "sublist server_response_key m"
  from sublist_length_le [OF this(2)] this(1) show False
    by (simp add: server_response_key_def)
qed

lemma segment_split:
  assumes "p \<le> a" and "a \<le> e"
  shows "take (e - p) (drop p t) = take (a - p) (drop p t) @ take (e - a) (drop a t)"
proof -
  have "e - p = (a - p) + (e - a)" using assms by linarith
  then have "take (e - p) (drop p t) =
      take (a - p) (drop p t) @ take (e - a) (drop (a - p) (drop p t))"
    by (simp only: take_add)
  moreover have "drop (a - p) (drop p t) = drop a t" using assms(1) by simp
  ultimately show ?thesis by simp
qed

lemma segment_head:
  assumes "a < e" and "e \<le> length t"
  shows "take (e - a) (drop a t) = t ! a # take (e - (a + 1)) (drop (a + 1) t)"
proof -
  have "a < length t" using assms by linarith
  then have "drop a t = t ! a # drop (a + 1) t" by (simp add: Cons_nth_drop_Suc)
  moreover have "e - a = Suc (e - (a + 1))" using assms(1) by linarith
  ultimately show ?thesis by simp
qed

lemma segment_elem:
  assumes "x \<in> set (take (e - p) (drop p t))" and "e \<le> length t"
  shows "\<exists>i. p \<le> i \<and> i < e \<and> x = t ! i"
proof -
  from assms(1) obtain j where j: "j < length (take (e - p) (drop p t))"
    and x: "x = take (e - p) (drop p t) ! j"
    by (auto simp: in_set_conv_nth)
  from j have "j < e - p \<and> j < length t - p" by simp
  then have jl: "j < e - p" "p + j < length t" by linarith+
  then have "x = t ! (p + j)" using x by simp
  moreover have "p \<le> p + j" "p + j < e" using jl by linarith+
  ultimately show ?thesis by blast
qed

lemma kept_match_shape:
  assumes "e \<in> set (ends pattern t p)"
  shows "\<exists>W c rest. take (e - p) (drop p t) = W @ dquote # c # rest \<and> W \<noteq> [] \<and>
           (\<forall>x \<in> set W. is_space x) \<and> is_word c \<and> newline \<notin> set rest"
proof -
  from assms obtain a where
    a1: "p < a" and a2: "a + 1 < e" and a3: "e \<le> length t" and
    a5: "\<forall>i. p \<le> i \<and> i < a \<longrightarrow> is_space (t ! i)" and
    dq: "t ! a = dquote" and w1: "is_word (t ! (a + 1))" and
    a6: "\<forall>i. a \<le> i \<and> i < e \<longrightarrow> t ! i \<noteq> newline"
    by (rule pattern_match_shape)
  let ?W = "take (a - p) (drop p t)"
  let ?rest = "take (e - (a + 2)) (drop (a + 2) t)"
  have pa: "p \<le> a" and ae: "a \<le> e" and ae1: "a < e" and ae2: "a + 1 < e"
    using a1 a2 by linarith+
  have al: "a \<le> length t" using a2 a3 by linarith
  have "take (e - p) (drop p t) = ?W @ take (e - a) (drop a t)"
    using pa ae by (rule segment_split)
  also have "take (e - a) (drop a t) = t ! a # take (e - (a + 1)) (drop (a + 1) t)"
    using ae1 a3 by (rule segment_head)
  also have "take (e - (a + 1)) (drop (a + 1) t) = t ! (a + 1) # ?rest"
    using segment_head [OF ae2 a3] by (simp add: numeral_2_eq_2)
  finally have eq: "take (e - p) (drop p t) = ?W @ dquote # t ! (a + 1) # ?rest"
    using dq by simp
  have "length ?W = a - p" using al by simp
  then have ne: "?W \<noteq> []" using a1 by auto
  have sp: "\<forall>x \<in> set ?W. is_space x"
  proof
    fix x assume "x \<in> set ?W"
    from segment_elem [OF this al] a5 show "is_space x" by blast
  qed
  have nl: "newline \<notin> set ?rest"
  proof
    assume "newline \<in> set ?rest"
    from segment_elem [OF this a3] obtain i where "a + 2 \<le> i" "i < e" "newline = t ! i"
      by blast
    moreover from this have "a \<le> i \<and> i < e" by linarith
    ultimately show False using a6 by metis
  qed
  from eq ne sp w1 nl show ?thesis by blast
qed

text \<open>
  C1. Whatever the response body is, the text that is handed to \<open>json.loads\<close> contains
  no occurrence of the key of the diagnostic member, \<open>server_response\<close> with its closing
  quote: no line of the body that has this member is part of the parsed text, whatever
  else the line contains.
\<close>

theorem server_response_excluded:
  "\<not> sublist server_response_key (clean_text text)"
proof
  assume "sublist server_response_key (clean_text text)"
  then have "sublist server_response_key
      (''{'' @ CHR '' '' # (join [newline] (clean_list text) @ CHR '' '' # ''}''))"
    by (simp add: clean_text_def)
  from sublist_around [OF key_chars(2) this]
  have "sublist server_response_key (join [newline] (clean_list text) @ CHR '' '' # ''}'')"
    using key_not_in_brace [of "''{''"] by simp
  from sublist_around [OF key_chars(2) this]
  have "sublist server_response_key (join [newline] (clean_list text))"
    using key_not_in_brace [of "''}''"] by simp
  from sublist_join [OF key_chars(1) key_chars(3) this]
  obtain m where m: "m \<in> set (clean_list text)" "sublist server_response_key m" by blast
  from findall_from_elem [of m pattern "text" 0] m(1) obtain q e where
    "re_match pattern text q = Some e" "m = take (e - q) (drop q text)"
    by (auto simp: clean_list_def findall_def)
  with match_has_no_key [OF re_match_in_ends, of "text" q e] m(2) show False by simp
qed

lemma column_zero_not_covered:
  assumes m: "e \<in> set (ends pattern t p)"
    and q0: "q = 0 \<or> (t ! (q - 1) = newline \<and>
               (\<exists>r<q. \<not> is_space (t ! r) \<and> (\<forall>i. r \<le> i \<and> i < q - 1 \<longrightarrow> t ! i \<noteq> newline)))"
    and qd: "t ! q = dquote"
  shows "\<not> (p \<le> q \<and> q < e)"
proof
  assume pq: "p \<le> q \<and> q < e"
  from m obtain a where
    bol: "p = 0 \<or> (p \<le> length t \<and> t ! (p - 1) = newline)" and
    a1: "p < a" and
    a5: "\<forall>i. p \<le> i \<and> i < a \<longrightarrow> is_space (t ! i)" and
    a6: "\<forall>i. a \<le> i \<and> i < e \<longrightarrow> t ! i \<noteq> newline"
    by (rule pattern_match_shape)
  consider "q < a" | "a < q" | "q = a" by linarith
  then show False
  proof cases
    case 1
    with pq a5 have "is_space (t ! q)" by blast
    with qd dquote_not_space show False by simp
  next
    case 2
    then have "q \<noteq> 0" by linarith
    with q0 have nl: "t ! (q - 1) = newline" by blast
    have "a \<le> q - 1 \<and> q - 1 < e" using 2 pq by linarith
    with a6 have "t ! (q - 1) \<noteq> newline" by blast
    with nl show False by simp
  next
    case 3
    then have "q \<noteq> 0" using a1 by linarith
    with q0 obtain r where r: "r < q" "\<not> is_space (t ! r)"
      "\<forall>i. r \<le> i \<and> i < q - 1 \<longrightarrow> t ! i \<noteq> newline" by blast
    have rp: "r < p"
    proof (rule ccontr)
      assume "\<not> r < p"
      then have "p \<le> r \<and> r < a" using r(1) 3 by linarith
      with a5 r(2) show False by blast
    qed
    then have "p \<noteq> 0" by linarith
    with bol have nl: "t ! (p - 1) = newline" by blast
    have "r \<le> p - 1 \<and> p - 1 < q - 1" using rp a1 3 by linarith
    with r(3) have "t ! (p - 1) \<noteq> newline" by blast
    with nl show False by simp
  qed
qed

lemma no_colon_needed:
  "clean_list (''  '' @ [dquote] @ ''abc'') = [''  '' @ [dquote] @ ''abc'']"
  by code_simp

text \<open>
  C10, as amended. Every stretch of the body that the filter keeps begins with at least
  one whitespace character, where a line feed counts, followed by a double quote, a word
  character and characters other than the line feed. A line that starts at column zero
  with a double quote lies outside every match of the pattern when it is the first line
  of the body or the line before it has a character that is not whitespace. A line
  without a colon can be kept.
\<close>

theorem kept_stretch_shape:
  "(\<forall>m \<in> set (clean_list t).
      \<exists>W c rest. m = W @ dquote # c # rest \<and> W \<noteq> [] \<and> (\<forall>x \<in> set W. is_space x) \<and>
        is_word c \<and> newline \<notin> set rest) \<and>
   (\<forall>q p e.
      (q = 0 \<or> (t ! (q - 1) = newline \<and>
         (\<exists>r<q. \<not> is_space (t ! r) \<and> (\<forall>i. r \<le> i \<and> i < q - 1 \<longrightarrow> t ! i \<noteq> newline)))) \<and>
      t ! q = dquote \<and> re_match pattern t p = Some e \<longrightarrow> \<not> (p \<le> q \<and> q < e)) \<and>
   clean_list (''  '' @ [dquote] @ ''abc'') = [''  '' @ [dquote] @ ''abc'']"
proof (intro conjI ballI allI impI)
  fix m assume "m \<in> set (clean_list t)"
  then have "m \<in> set (findall_from pattern t 0)" by (simp add: clean_list_def findall_def)
  from findall_from_elem [OF this] obtain q e where
    "re_match pattern t q = Some e" "m = take (e - q) (drop q t)" by blast
  with kept_match_shape [OF re_match_in_ends, of t q e]
  show "\<exists>W c rest. m = W @ dquote # c # rest \<and> W \<noteq> [] \<and> (\<forall>x \<in> set W. is_space x) \<and>
        is_word c \<and> newline \<notin> set rest" by simp
next
  fix q p e
  assume h: "(q = 0 \<or> (t ! (q - 1) = newline \<and>
         (\<exists>r<q. \<not> is_space (t ! r) \<and> (\<forall>i. r \<le> i \<and> i < q - 1 \<longrightarrow> t ! i \<noteq> newline)))) \<and>
      t ! q = dquote \<and> re_match pattern t p = Some e"
  then have "e \<in> set (ends pattern t p)" by (simp add: re_match_in_ends)
  from column_zero_not_covered [OF this] h show "\<not> (p \<le> q \<and> q < e)" by simp
next
  show "clean_list (''  '' @ [dquote] @ ''abc'') = [''  '' @ [dquote] @ ''abc'']"
    by (rule no_colon_needed)
qed

lemma indented_payload_kept:
  "clean_list indented_payload = [''  '' @ [dquote] @ ''b'' @ [dquote] @ '': 2'']"
  "re_match pattern indented_payload 10 = Some 18"
  "indented_payload ! 0 = CHR ''{''" "indented_payload ! 1 = newline"
  "indented_payload ! 2 = dquote" "indented_payload ! (2 - 1) = newline"
  by code_simp+

theorem kept_stretch_shape_witness:
  "(\<exists>W c rest. ''  '' @ [dquote] @ ''b'' @ [dquote] @ '': 2'' = W @ dquote # c # rest \<and>
      W \<noteq> [] \<and> (\<forall>x \<in> set W. is_space x) \<and> is_word c \<and> newline \<notin> set rest) \<and>
   re_match pattern indented_payload 10 = Some 18 \<and> \<not> (10 \<le> (2::nat) \<and> (2::nat) < 18)"
proof -
  note th = kept_stretch_shape [of indented_payload]
  have "''  '' @ [dquote] @ ''b'' @ [dquote] @ '': 2'' \<in> set (clean_list indented_payload)"
    by (simp add: indented_payload_kept)
  with th have 1: "\<exists>W c rest. ''  '' @ [dquote] @ ''b'' @ [dquote] @ '': 2'' = W @ dquote # c # rest \<and>
      W \<noteq> [] \<and> (\<forall>x \<in> set W. is_space x) \<and> is_word c \<and> newline \<notin> set rest"
    by (elim conjE) (erule bspec)
  have "\<not> is_space (indented_payload ! 0) \<and>
        (\<forall>i. 0 \<le> i \<and> i < (2::nat) - 1 \<longrightarrow> indented_payload ! i \<noteq> newline)"
    by (simp add: indented_payload_kept is_space_def newline_def)
  then have ex: "\<exists>r<2. \<not> is_space (indented_payload ! r) \<and>
        (\<forall>i. r \<le> i \<and> i < (2::nat) - 1 \<longrightarrow> indented_payload ! i \<noteq> newline)"
    by (intro exI [of _ 0]) simp
  have h: "((2::nat) = 0 \<or> (indented_payload ! (2 - 1) = newline \<and>
         (\<exists>r<2. \<not> is_space (indented_payload ! r) \<and>
            (\<forall>i. r \<le> i \<and> i < (2::nat) - 1 \<longrightarrow> indented_payload ! i \<noteq> newline)))) \<and>
      indented_payload ! 2 = dquote \<and> re_match pattern indented_payload 10 = Some 18"
    by (intro conjI disjI2) (rule indented_payload_kept ex)+
  from th have "\<forall>q p e.
      (q = 0 \<or> (indented_payload ! (q - 1) = newline \<and>
         (\<exists>r<q. \<not> is_space (indented_payload ! r) \<and>
            (\<forall>i. r \<le> i \<and> i < q - 1 \<longrightarrow> indented_payload ! i \<noteq> newline)))) \<and>
      indented_payload ! q = dquote \<and> re_match pattern indented_payload p = Some e \<longrightarrow>
      \<not> (p \<le> q \<and> q < e)"
    by (elim conjE)
  from this [rule_format, OF h] have 2: "\<not> (10 \<le> (2::nat) \<and> (2::nat) < 18)" .
  from 1 2 show ?thesis by (simp add: indented_payload_kept)
qed

text \<open>
  C10 as stated fails: in a body whose member line starts at column zero after an empty
  line, the match begins on the empty line and runs over the member line, which is kept
  and reaches the parsed text.
\<close>

theorem column_zero_line_kept:
  "clean_list blank_line_payload = [[newline, dquote] @ ''fanspd'' @ [dquote] @ '': 5''] \<and>
   clean_text blank_line_payload = ''{ '' @ [newline, dquote] @ ''fanspd'' @ [dquote] @ '': 5 }''"
  by code_simp

section \<open>What a method sends\<close>

lemma get_device_state_trace:
  "get_device_state P s = (r, s') \<Longrightarrow> trace s' = trace s @ [GetStatus]"
  by (auto simp: get_device_state_def Let_def
      split: prod.splits sum.splits http_failure.splits option.splits)

lemma set_device_state_trace:
  assumes "set_device_state P c s = (r, s')"
  shows "\<exists>evs. trace s' = trace s @ evs \<and> commands evs = [c]"
proof (cases "requests_get_command P c (world s)")
  case (Pair q w')
  show ?thesis
  proof (cases q)
    case (Inl f)
    with Pair assms have "trace s' = trace s @ [GetCommand c]"
      by (cases f) (auto simp: set_device_state_def)
    then show ?thesis by simp
  next
    case (Inr u)
    obtain r2 s2 where g: "get_device_state P (s\<lparr>world := w', trace := trace s @ [GetCommand c]\<rparr>) = (r2, s2)"
      by (cases "get_device_state P (s\<lparr>world := w', trace := trace s @ [GetCommand c]\<rparr>)")
    from get_device_state_trace [OF g]
    have t2: "trace s2 = trace s @ [GetCommand c, GetStatus]" by simp
    from assms Pair Inr g have "s' = s2"
      by (auto simp: set_device_state_def split: sum.splits)
    with t2 show ?thesis by simp
  qed
qed

lemma set_device_state_sends:
  "\<exists>evs. trace (snd (set_device_state P c s)) = trace s @ evs \<and> commands evs = [c]"
  using set_device_state_trace [of P c s "fst (set_device_state P c s)" "snd (set_device_state P c s)"]
  by simp

section \<open>The setters and the stepping methods\<close>

text \<open>
  C2. Setting the speed to 0 does what setting the power to false does, in every cached
  state and on every device: both are the one call \<open>set_device_state(4)\<close>, and the calls
  this makes contain exactly one command, with code 4, so no command 1 and no command 3.
\<close>

theorem set_speed_zero_is_power_off:
  "set_speed P 0 s = set_is_on P False s \<and>
   set_is_on P False s = Some (set_device_state P 4 s) \<and>
   (\<exists>evs. trace (snd (set_device_state P 4 s)) = trace s @ evs \<and> commands evs = [4])"
  using set_device_state_sends [of P 4 s] by (simp add: set_speed_def set_is_on_def)

text \<open>
  C4. When the guard of \<open>speed_up\<close> passes (the cached speed is at least 1 and below the
  maximum speed) and the request to the command endpoint fails with a connection failure,
  \<open>speed_up\<close> ends with \<open>ConnectionError\<close> and the cached snapshot is the one from before
  the call.
\<close>

theorem speed_up_connection_failure:
  assumes "1 \<le> fanspd (data s)"
    and "fanspd (data s) < fst (max_speed T s)"
    and "fst (requests_get_command P 1 (world s)) = Inl RequestsConnectionError"
  shows "fst (speed_up T P s) = Inl ConnectionError \<and> data (snd (speed_up T P s)) = data s"
  using assms
  by (auto simp: speed_up_def max_speed_def set_device_state_def split: prod.splits)

theorem speed_up_connection_failure_witness:
  "fst (speed_up toy_table dead_device \<lparr>data = cached 3 ''small'', world = (), trace = []\<rparr>)
     = Inl ConnectionError \<and>
   data (snd (speed_up toy_table dead_device \<lparr>data = cached 3 ''small'', world = (), trace = []\<rparr>))
     = cached 3 ''small''"
  using speed_up_connection_failure [of "\<lparr>data = cached 3 ''small'', world = (), trace = []\<rparr>"
      toy_table dead_device]
  by (simp add: max_speed_def toy_table_def cached_def dead_device_def)

text \<open>
  C5. \<open>max_speed\<close> returns the value of the table when the cached model is a key of the
  table and 10 when it is not. It leaves the state as it is: the outside world is not
  touched and no call is recorded.
\<close>

theorem max_speed_lookup:
  "(\<forall>v. T (model (data s)) = Some v \<longrightarrow> max_speed T s = (v, s)) \<and>
   (model (data s) \<notin> dom T \<longrightarrow> max_speed T s = (10, s))"
  by (auto simp: max_speed_def dom_def split: option.splits)

theorem max_speed_lookup_witness:
  "max_speed toy_table \<lparr>data = cached 3 ''small'', world = (), trace = []\<rparr>
     = (7, \<lparr>data = cached 3 ''small'', world = (), trace = []\<rparr>) \<and>
   max_speed toy_table \<lparr>data = cached 3 ''other'', world = (), trace = []\<rparr>
     = (10, \<lparr>data = cached 3 ''other'', world = (), trace = []\<rparr>)"
  using max_speed_lookup [of toy_table "\<lparr>data = cached 3 ''small'', world = (), trace = []\<rparr>"]
    max_speed_lookup [of toy_table "\<lparr>data = cached 3 ''other'', world = (), trace = []\<rparr>"]
  by (simp add: toy_table_def cached_def dom_def)

text \<open>
  C6. When the cached speed is 0 or equal to the maximum speed, \<open>speed_up\<close> returns with
  the state unchanged, so nothing is sent. When the cached speed is at least 1 and below
  the maximum speed, the calls of \<open>speed_up\<close> contain exactly one command, with code 1.
\<close>

theorem speed_up_guard:
  "(fanspd (data s) = 0 \<or> fanspd (data s) = fst (max_speed T s) \<longrightarrow>
      speed_up T P s = (Inr (), s)) \<and>
   (1 \<le> fanspd (data s) \<and> fanspd (data s) < fst (max_speed T s) \<longrightarrow>
      (\<exists>evs. trace (snd (speed_up T P s)) = trace s @ evs \<and> commands evs = [1]))"
  using set_device_state_sends [of P 1 s] by (auto simp: speed_up_def max_speed_def)

theorem speed_up_guard_witness:
  "speed_up toy_table digit_device \<lparr>data = cached 0 ''small'', world = 0, trace = []\<rparr>
     = (Inr (), \<lparr>data = cached 0 ''small'', world = 0, trace = []\<rparr>) \<and>
   speed_up toy_table digit_device \<lparr>data = cached 7 ''small'', world = 7, trace = []\<rparr>
     = (Inr (), \<lparr>data = cached 7 ''small'', world = 7, trace = []\<rparr>) \<and>
   (\<exists>evs. trace (snd (speed_up toy_table digit_device
        \<lparr>data = cached 3 ''small'', world = 3, trace = []\<rparr>)) = [] @ evs \<and> commands evs = [1])"
  using speed_up_guard [of "\<lparr>data = cached 0 ''small'', world = 0, trace = []\<rparr>" toy_table digit_device]
    speed_up_guard [of "\<lparr>data = cached 7 ''small'', world = 7, trace = []\<rparr>" toy_table digit_device]
    speed_up_guard [of "\<lparr>data = cached 3 ''small'', world = 3, trace = []\<rparr>" toy_table digit_device]
  by (simp add: max_speed_def toy_table_def cached_def)

text \<open>
  C7. When the cached speed is at most 1, \<open>slow_down\<close> returns with the state unchanged,
  so nothing is sent. When the cached speed is above 1, the calls of \<open>slow_down\<close> contain
  exactly one command, with code 3.
\<close>

theorem slow_down_guard:
  "(fanspd (data s) \<le> 1 \<longrightarrow> slow_down P s = (Inr (), s)) \<and>
   (1 < fanspd (data s) \<longrightarrow>
      (\<exists>evs. trace (snd (slow_down P s)) = trace s @ evs \<and> commands evs = [3]))"
  using set_device_state_sends [of P 3 s] by (auto simp: slow_down_def)

theorem slow_down_guard_witness:
  "slow_down digit_device \<lparr>data = cached 1 ''small'', world = 1, trace = []\<rparr>
     = (Inr (), \<lparr>data = cached 1 ''small'', world = 1, trace = []\<rparr>) \<and>
   (\<exists>evs. trace (snd (slow_down digit_device
        \<lparr>data = cached 3 ''small'', world = 3, trace = []\<rparr>)) = [] @ evs \<and> commands evs = [3])"
  using slow_down_guard [of "\<lparr>data = cached 1 ''small'', world = 1, trace = []\<rparr>" digit_device]
    slow_down_guard [of "\<lparr>data = cached 3 ''small'', world = 3, trace = []\<rparr>" digit_device]
  by (simp add: cached_def)

section \<open>Stepping the speed down\<close>

lemma speed_loop_steps_down:
  assumes dev: "step_lowers_speed P spd target" and pos: "0 < target"
  shows "fanspd (data s) = target + int k \<Longrightarrow> spd (world s) = target + int k \<Longrightarrow>
         \<exists>s'. speed_loop P target 3 s = Some (Inr (), s') \<and>
              trace s' = trace s @ concat (replicate k [GetCommand 3, GetStatus, Sleep 750]) \<and>
              fanspd (data s') = target"
proof (induction k arbitrary: s)
  case 0
  then show ?case by (subst speed_loop.simps) simp
next
  case (Suc k)
  from Suc.prems have "target < spd (world s)" by simp
  with dev obtain w1 body w2 d where
    c: "requests_get_command P 3 (world s) = (Inr (), w1)" and
    g: "requests_get_status P w1 = (Inr body, w2)" and
    j: "json_loads P (clean_text body) = Some d" and
    f: "fanspd d = spd (world s) - 1" and
    z: "spd (sleep P 750 w2) = spd (world s) - 1"
    unfolding step_lowers_speed_def by blast
  let ?s1 = "s\<lparr>world := w2, trace := trace s @ [GetCommand 3, GetStatus], data := d\<rparr>"
  have sd: "set_device_state P 3 s = (Inr (), ?s1)"
    using c g j by (simp add: set_device_state_def get_device_state_def)
  let ?s2 = "do_sleep P 750 ?s1"
  have "fanspd (data ?s2) = target + int k" "spd (world ?s2) = target + int k"
    using f z Suc.prems by (simp_all add: do_sleep_def)
  from Suc.IH [OF this] obtain s' where
    l: "speed_loop P target 3 ?s2 = Some (Inr (), s')" and
    t: "trace s' = trace ?s2 @ concat (replicate k [GetCommand 3, GetStatus, Sleep 750])" and
    e: "fanspd (data s') = target" by blast
  have ne: "fanspd (data s) \<noteq> target \<and> fanspd (data s) \<noteq> 0"
    using Suc.prems pos by simp
  have "speed_loop P target 3 s = Some (Inr (), s')"
    by (subst speed_loop.simps) (simp add: ne sd l)
  moreover have "trace s' = trace s @ concat (replicate (Suc k) [GetCommand 3, GetStatus, Sleep 750])"
    using t by (simp add: do_sleep_def)
  ultimately show ?case using e by blast
qed

text \<open>
  C3. With a cached speed of 5 and a device at speed 5 that lowers its reported speed by
  one after each slow-down command, setting the speed to 2 returns normally after
  exactly three rounds of a command with code 3, the refresh that follows it and the
  pause, and the cached speed is then 2.
\<close>

theorem set_speed_five_to_two:
  assumes "step_lowers_speed P spd 2"
    and "fanspd (data s) = 5"
    and "spd (world s) = 5"
  shows "\<exists>s'. set_speed P 2 s = Some (Inr (), s') \<and>
           trace s' = trace s @ [GetCommand 3, GetStatus, Sleep 750,
                                 GetCommand 3, GetStatus, Sleep 750,
                                 GetCommand 3, GetStatus, Sleep 750] \<and>
           fanspd (data s') = 2"
proof -
  have "\<exists>s'. speed_loop P 2 3 s = Some (Inr (), s') \<and>
          trace s' = trace s @ concat (replicate 3 [GetCommand 3, GetStatus, Sleep 750]) \<and>
          fanspd (data s') = 2"
    using speed_loop_steps_down [OF assms(1), of s 3] assms(2,3) by simp
  moreover have "set_speed P 2 s = speed_loop P 2 3 s"
    using assms(2) by (simp add: set_speed_def is_on_def py_bool_def)
  ultimately show ?thesis by (simp add: numeral_3_eq_3)
qed

lemma digit_body_loads:
  "digit_loads (clean_text (digit_body 2)) = Some \<lparr>fanspd = 2, doorinprocess = 0, model = ''toy'', others = []\<rparr>"
  "digit_loads (clean_text (digit_body 3)) = Some \<lparr>fanspd = 3, doorinprocess = 0, model = ''toy'', others = []\<rparr>"
  "digit_loads (clean_text (digit_body 4)) = Some \<lparr>fanspd = 4, doorinprocess = 0, model = ''toy'', others = []\<rparr>"
  by code_simp+

lemma digit_device_steps: "step_lowers_speed digit_device digit_speed 2"
proof -
  have "\<exists>d. digit_loads (clean_text (digit_body (digit_speed (w - 1)))) = Some d \<and>
          fanspd d = digit_speed w - 1 \<and> digit_speed (w - 1) = digit_speed w - 1"
    if "2 < digit_speed w" for w
  proof -
    from that have "w = 3 \<or> w = 4 \<or> w = 5"
      by (auto simp: digit_speed_def split: if_splits)
    then show ?thesis
      by (auto simp: digit_speed_def digit_body_loads)
  qed
  then show ?thesis
    by (simp add: step_lowers_speed_def digit_device_def)
qed

theorem set_speed_five_to_two_witness:
  "\<exists>s'. set_speed digit_device 2 \<lparr>data = cached 5 ''small'', world = 5, trace = []\<rparr>
           = Some (Inr (), s') \<and>
         trace s' = [GetCommand 3, GetStatus, Sleep 750,
                     GetCommand 3, GetStatus, Sleep 750,
                     GetCommand 3, GetStatus, Sleep 750] \<and>
         fanspd (data s') = 2"
  using set_speed_five_to_two [OF digit_device_steps,
      of "\<lparr>data = cached 5 ''small'', world = 5, trace = []\<rparr>"]
  by (simp add: cached_def digit_speed_def)

section \<open>Refreshing the cached state\<close>

text \<open>
  C8. When the status endpoint answers with the same payload twice and the sanitized
  payload parses, refreshing twice gives what refreshing once gives: the same returned
  snapshot and the same cached snapshot, which is the parse of the sanitized payload.
\<close>

theorem refresh_parse_idempotent:
  assumes "fst (requests_get_status P (world s)) = Inr text"
    and "fst (requests_get_status P (world (snd (get_device_state P s)))) = Inr text"
    and "json_loads P (clean_text text) \<noteq> None"
  shows "fst (get_device_state P (snd (get_device_state P s))) = fst (get_device_state P s) \<and>
         data (snd (get_device_state P (snd (get_device_state P s)))) =
           data (snd (get_device_state P s)) \<and>
         json_loads P (clean_text text) = Some (data (snd (get_device_state P s)))"
  using assms
  by (auto simp: get_device_state_def split: prod.splits option.splits)

theorem refresh_parse_idempotent_witness:
  "fst (get_device_state digit_device (snd (get_device_state digit_device
       \<lparr>data = cached 0 ''small'', world = 4, trace = []\<rparr>))) =
     fst (get_device_state digit_device \<lparr>data = cached 0 ''small'', world = 4, trace = []\<rparr>) \<and>
   data (snd (get_device_state digit_device (snd (get_device_state digit_device
       \<lparr>data = cached 0 ''small'', world = 4, trace = []\<rparr>)))) =
     data (snd (get_device_state digit_device \<lparr>data = cached 0 ''small'', world = 4, trace = []\<rparr>)) \<and>
   json_loads digit_device (clean_text (digit_body 4)) =
     Some (data (snd (get_device_state digit_device
       \<lparr>data = cached 0 ''small'', world = 4, trace = []\<rparr>)))"
  using refresh_parse_idempotent [of digit_device
      "\<lparr>data = cached 0 ''small'', world = 4, trace = []\<rparr>" "digit_body 4"]
  by (simp add: digit_device_def digit_speed_def get_device_state_def digit_body_loads)

text \<open>
  C9. When the sanitized, brace-wrapped payload does not parse, \<open>get_device_state\<close> ends
  with the error of the parser and the cached snapshot is the one from before the call.
\<close>

theorem parse_failure_keeps_cache:
  assumes "fst (requests_get_status P (world s)) = Inr text"
    and "json_loads P (clean_text text) = None"
  shows "fst (get_device_state P s) = Inl JSONDecodeError \<and>
         data (snd (get_device_state P s)) = data s"
  using assms
  by (auto simp: get_device_state_def split: prod.splits)

lemma cut_body_loads: "digit_loads (clean_text cut_body) = None"
  by code_simp

theorem parse_failure_keeps_cache_witness:
  "fst (get_device_state cut_device \<lparr>data = cached 3 ''small'', world = 3, trace = []\<rparr>)
     = Inl JSONDecodeError \<and>
   data (snd (get_device_state cut_device \<lparr>data = cached 3 ''small'', world = 3, trace = []\<rparr>))
     = cached 3 ''small''"
  using parse_failure_keeps_cache [of cut_device
      "\<lparr>data = cached 3 ''small'', world = 3, trace = []\<rparr>" cut_body]
  by (simp add: cut_device_def digit_device_def cut_body_loads)

end
